theory Spec2Isabelle
  imports Complex_Main
begin

section \<open>Shape detection of video_annotation_shape_detection.py\<close>

text \<open>
  The embedding covers the two functions \<open>detect_shape\<close> and \<open>is_arrow\<close>.
  Both call OpenCV; the library is not part of the repository, so its operations are the
  fields of a record \<open>cv\<close> that the model takes as an argument. Only
  \<open>cv2.boundingRect\<close> is written out, since two properties depend on its arithmetic.
  The arithmetic of \<open>is_arrow\<close> is binary64: every operation rounds its exact result, and
  \<open>np.arccos\<close>, which the C library computes, is one more field of the record.

  Python exceptions are values of \<open>py_error\<close>; a function that can raise returns
  \<open>py_error + 'a\<close> with \<open>Inl\<close> for the exception. \<open>CvError\<close> is \<open>cv2.error\<close>.
\<close>

subsection \<open>Data\<close>

datatype py_error = IndexError | ZeroDivisionError | CvError

type_synonym point = "int \<times> int"

text \<open>A contour is the array of shape (n, 1, 2) that OpenCV returns: n integer points.\<close>

type_synonym contour = "point list"

text \<open>A row \<open>defects[i, 0]\<close>: the indices of start, end and farthest point, and the depth.\<close>

type_synonym defect = "int \<times> int \<times> int \<times> int"

text \<open>
  The OpenCV calls of the two functions, with the arguments the source passes.
  \<open>findContours\<close> returns the contours and the hierarchy, one row of four indices for each
  contour. \<open>convexityDefects\<close> returns \<open>None\<close> when the contour has no defect, and raises
  \<open>cv2.error\<close> when the hull indices are not monotonous, which happens for a contour that
  intersects itself. The other calls return on every canvas and on every contour found in
  one. \<open>np_arccos\<close> is \<open>np.arccos\<close> on a finite argument between -1 and 1.
\<close>

datatype color_code = COLOR_BGR2GRAY
datatype retrieval_mode = RETR_TREE
datatype approx_method = CHAIN_APPROX_SIMPLE

record 'img cv =
  cvtColor :: "'img \<Rightarrow> color_code \<Rightarrow> 'img"
  GaussianBlur :: "'img \<Rightarrow> nat \<times> nat \<Rightarrow> real \<Rightarrow> 'img"
  Canny :: "'img \<Rightarrow> real \<Rightarrow> real \<Rightarrow> 'img"
  findContours ::
    "'img \<Rightarrow> retrieval_mode \<Rightarrow> approx_method \<Rightarrow> contour list \<times> (int \<times> int \<times> int \<times> int) list"
  contourArea :: "contour \<Rightarrow> real"
  arcLength :: "contour \<Rightarrow> bool \<Rightarrow> real"
  approxPolyDP :: "contour \<Rightarrow> real \<Rightarrow> bool \<Rightarrow> contour"
  convexHull :: "contour \<Rightarrow> int list"
  convexityDefects :: "contour \<Rightarrow> int list \<Rightarrow> py_error + defect list option"
  np_arccos :: "real \<Rightarrow> real"

subsection \<open>numpy scalars\<close>

text \<open>
  A \<open>np.float64\<close> is a finite value, an infinity or NaN. A finite value is the real number
  it stands for. The special values follow IEEE 754 as numpy applies it to scalars: a
  division by zero gives NaN or an infinity (with a warning, not an exception),
  \<open>arccos\<close> outside [-1, 1] gives NaN, and every comparison with NaN is false. A zero
  divisor is the positive zero: the only divisors are a product of norms and \<open>np.pi\<close>.
\<close>

datatype npfloat = Fin real | PInf | NInf | NaN

text \<open>
  Rounding to binary64, to nearest with ties to even: \<open>rnint\<close> rounds to an integer and
  \<open>rne\<close> rounds a real to 53 significant bits. The values of the computation are far from
  the overflow and underflow thresholds, so the exponent is not bounded.
\<close>

definition rnint :: "real \<Rightarrow> int" where
  "rnint x =
     (let f = \<lfloor>x\<rfloor>; r = x - of_int f
      in if r < 1 / 2 then f else if 1 / 2 < r then f + 1 else if even f then f else f + 1)"

definition rne :: "real \<Rightarrow> real" where
  "rne x =
     (if x = 0 then 0
      else (let p = 2 powr of_int (\<lfloor>log 2 \<bar>x\<bar>\<rfloor> - 52)
            in of_int (rnint (x / p)) * p))"

text \<open>The constant \<open>np.pi\<close>, the binary64 number 0x1.921fb54442d18p+1.\<close>

definition np_pi :: real where
  "np_pi = 884279719003555 / 281474976710656"

text \<open>Division, \<open>np.arccos\<close>, multiplication and comparison of scalars, each result rounded.\<close>

definition np_div :: "real \<Rightarrow> real \<Rightarrow> npfloat" where
  "np_div x y =
     (if y = 0 then (if x = 0 then NaN else if 0 < x then PInf else NInf)
      else Fin (rne (x / y)))"

fun arccos64 :: "'img cv \<Rightarrow> npfloat \<Rightarrow> npfloat" where
  "arccos64 cv (Fin x) = (if - 1 \<le> x \<and> x \<le> 1 then Fin (np_arccos cv x) else NaN)"
| "arccos64 cv PInf = NaN"
| "arccos64 cv NInf = NaN"
| "arccos64 cv NaN = NaN"

fun np_times :: "npfloat \<Rightarrow> real \<Rightarrow> npfloat" where
  "np_times (Fin x) k = Fin (rne (x * k))"
| "np_times PInf k = (if 0 < k then PInf else if k < 0 then NInf else NaN)"
| "np_times NInf k = (if 0 < k then NInf else if k < 0 then PInf else NaN)"
| "np_times NaN k = NaN"

fun np_over :: "npfloat \<Rightarrow> real \<Rightarrow> npfloat" where
  "np_over (Fin x) k = np_div x k"
| "np_over PInf k = (if 0 \<le> k then PInf else NInf)"
| "np_over NInf k = (if 0 \<le> k then NInf else PInf)"
| "np_over NaN k = NaN"

fun np_le :: "npfloat \<Rightarrow> real \<Rightarrow> bool" where
  "np_le (Fin x) k = (x \<le> k)"
| "np_le PInf k = False"
| "np_le NInf k = True"
| "np_le NaN k = False"

text \<open>
  \<open>contour[i][0]\<close>: numpy indexing along the first axis. A negative index counts from the
  end; an index out of range raises IndexError.
\<close>

definition np_index :: "contour \<Rightarrow> int \<Rightarrow> py_error + point" where
  "np_index contour i =
     (let n = int (length contour); j = (if i < 0 then n + i else i)
      in if 0 \<le> j \<and> j < n then Inr (contour ! nat j) else Inl IndexError)"

text \<open>
  \<open>np.linalg.norm(np.array(p) - np.array(q))\<close> for two integer points: the square root,
  rounded, of the sum of the squares, which is an integer and exact. Pixel coordinates are
  far below the int32 range, so the subtraction does not wrap.
\<close>

definition fl_norm :: "point \<Rightarrow> point \<Rightarrow> real" where
  "fl_norm p q = rne (sqrt (real_of_int ((fst p - fst q)\<^sup>2 + (snd p - snd q)\<^sup>2)))"

subsection \<open>is_arrow\<close>

text \<open>
  Line 225, operation by operation. \<open>x**2\<close> is the rounded product of \<open>x\<close> with itself,
  \<open>b**2 + c**2 - a**2\<close> adds and then subtracts, and \<open>2 * b * c\<close> multiplies from the left.
\<close>

definition angle_at :: "'img cv \<Rightarrow> point \<Rightarrow> point \<Rightarrow> point \<Rightarrow> npfloat" where
  "angle_at cv start en far =
     (let a = fl_norm start en;
          b = fl_norm start far;
          c = fl_norm en far
      in np_over
           (np_times
              (arccos64 cv
                 (np_div (rne (rne (rne (b * b) + rne (c * c)) - rne (a * a)))
                    (rne (rne (2 * b) * c))))
              180)
           np_pi)"

text \<open>The first five statements of the loop body: the three lookups and the angle.\<close>

fun defect_angle :: "'img cv \<Rightarrow> contour \<Rightarrow> defect \<Rightarrow> py_error + npfloat" where
  "defect_angle cv contour (s, e, f, d) =
     (case np_index contour s of
        Inl err \<Rightarrow> Inl err
      | Inr start \<Rightarrow>
          (case np_index contour e of
             Inl err \<Rightarrow> Inl err
           | Inr en \<Rightarrow>
               (case np_index contour f of
                  Inl err \<Rightarrow> Inl err
                | Inr far \<Rightarrow> Inr (angle_at cv start en far))))"

text \<open>The \<open>for\<close> loop over the rows of \<open>defects\<close>, with the running \<open>count\<close>.\<close>

fun arrow_loop :: "'img cv \<Rightarrow> contour \<Rightarrow> defect list \<Rightarrow> int \<Rightarrow> py_error + bool" where
  "arrow_loop cv contour [] count = Inr False"
| "arrow_loop cv contour (d # ds) count =
     (case defect_angle cv contour d of
        Inl err \<Rightarrow> Inl err
      | Inr angle \<Rightarrow>
          (let count' = (if np_le angle 90 then count + 1 else count)
           in if 1 < count' then Inr True else arrow_loop cv contour ds count'))"

text \<open>
  The indices a lookup accepts, a defect whose three lookups succeed, and the test
  \<open>angle <= 90\<close> of the loop body as a predicate on a defect.
\<close>

definition valid_index :: "contour \<Rightarrow> int \<Rightarrow> bool" where
  "valid_index contour i \<longleftrightarrow> - int (length contour) \<le> i \<and> i < int (length contour)"

fun defect_ok :: "contour \<Rightarrow> defect \<Rightarrow> bool" where
  "defect_ok contour (s, e, f, d) \<longleftrightarrow>
     valid_index contour s \<and> valid_index contour e \<and> valid_index contour f"

definition sharp :: "'img cv \<Rightarrow> contour \<Rightarrow> defect \<Rightarrow> bool" where
  "sharp cv contour d =
     (case defect_angle cv contour d of Inl err \<Rightarrow> False | Inr angle \<Rightarrow> np_le angle 90)"

definition is_arrow :: "'img cv \<Rightarrow> contour \<Rightarrow> py_error + bool" where
  "is_arrow cv contour =
     (let hull_ix = convexHull cv contour
      in if length hull_ix < 3 then Inr False
         else (case convexityDefects cv contour hull_ix of
                 Inl err \<Rightarrow> Inl err
               | Inr None \<Rightarrow> Inr False
               | Inr (Some defects) \<Rightarrow> arrow_loop cv contour defects 0))"

text \<open>
  The included angle of the specification, in exact real arithmetic: the law of cosines
  at \<open>far\<close> with \<open>a = |start - end|\<close>, \<open>b = |start - far|\<close> and \<open>c = |end - far|\<close>, in
  degrees, and no angle when \<open>b\<close> or \<open>c\<close> is zero. \<open>dot_at\<close> is the inner product of the two
  edges that meet at \<open>far\<close>; its sign decides whether the angle is at most a right angle.
\<close>

definition norm_diff :: "point \<Rightarrow> point \<Rightarrow> real" where
  "norm_diff p q = sqrt (real_of_int ((fst p - fst q)\<^sup>2 + (snd p - snd q)\<^sup>2))"

definition spec_included_angle :: "point \<Rightarrow> point \<Rightarrow> point \<Rightarrow> real option" where
  "spec_included_angle start en far =
     (let a = norm_diff start en;
          b = norm_diff start far;
          c = norm_diff en far
      in if b = 0 \<or> c = 0 then None
         else Some (arccos ((b\<^sup>2 + c\<^sup>2 - a\<^sup>2) / (2 * b * c)) * 180 / pi))"

definition dot_at :: "point \<Rightarrow> point \<Rightarrow> point \<Rightarrow> int" where
  "dot_at start en far =
     (fst start - fst far) * (fst en - fst far) + (snd start - snd far) * (snd en - snd far)"

subsection \<open>detect_shape\<close>

text \<open>
  Python's \<open>max(xs, key=f)\<close> on a non-empty list, given as its first item and the rest:
  the first item whose key no later item exceeds.
\<close>

fun py_max :: "('a \<Rightarrow> real) \<Rightarrow> 'a \<Rightarrow> 'a list \<Rightarrow> 'a" where
  "py_max key m [] = m"
| "py_max key m (x # xs) = py_max key (if key m < key x then x else m) xs"

text \<open>
  Modelled from the spec: \<open>cv2.boundingRect\<close> is OpenCV code, absent from the sources.
  The spec's axis-aligned bounding rectangle of a polygon of integer pixel points, in the
  library's convention for such points: the corner is the least x and y, and width and
  height count the pixel columns and rows covered, so each is the extent plus one. No
  points give the empty rectangle.
\<close>

definition boundingRect :: "contour \<Rightarrow> int \<times> int \<times> int \<times> int" where
  "boundingRect pts =
     (if pts = [] then (0, 0, 0, 0)
      else (let xs = map fst pts; ys = map snd pts
            in (Min (set xs), Min (set ys),
                Max (set xs) - Min (set xs) + 1, Max (set ys) - Min (set ys) + 1)))"

text \<open>
  The dispatch on \<open>len(approx)\<close>, lines 176 to 196 of \<open>detect_shape\<close>, under the
  name the specification gives it. \<open>w / float(h)\<close> divides Python
  floats, which raises ZeroDivisionError when \<open>h\<close> is zero. The ratio is a real number:
  rounding is not modelled.
\<close>

definition classify :: "'img cv \<Rightarrow> contour \<Rightarrow> contour \<Rightarrow> py_error + string" where
  "classify cv approx c =
     (if length approx = 3 then Inr ''Triangle''
      else if length approx = 4 then
        (case boundingRect approx of (x, y, w, h) \<Rightarrow>
           if h = 0 then Inl ZeroDivisionError
           else (let aspect_ratio = real_of_int w / real_of_int h
                 in if 95 / 100 \<le> aspect_ratio \<and> aspect_ratio \<le> 105 / 100
                    then Inr ''Square'' else Inr ''Rectangle''))
      else if 4 < length approx then
        (case is_arrow cv c of
           Inl err \<Rightarrow> Inl err
         | Inr arrow \<Rightarrow> if arrow then Inr ''Arrow'' else Inr ''Circle'')
      else Inr ''Unknown shape'')"

text \<open>Lines 143 to 156: the contours found on the canvas.\<close>

definition found_contours :: "'img cv \<Rightarrow> 'img \<Rightarrow> contour list" where
  "found_contours cv canvas =
     (let gray = cvtColor cv canvas COLOR_BGR2GRAY;
          blurred = GaussianBlur cv gray (5, 5) 0;
          edged = Canny cv blurred 50 150
      in fst (findContours cv edged RETR_TREE CHAIN_APPROX_SIMPLE))"

definition detect_shape :: "'img cv \<Rightarrow> 'img \<Rightarrow> py_error + string" where
  "detect_shape cv canvas =
     (let gray = cvtColor cv canvas COLOR_BGR2GRAY;
          blurred = GaussianBlur cv gray (5, 5) 0;
          edged = Canny cv blurred 50 150;
          contours = fst (findContours cv edged RETR_TREE CHAIN_APPROX_SIMPLE)
      in (case contours of
            [] \<Rightarrow> Inr ''No shape detected''
          | c0 # rest \<Rightarrow>
              (let c = py_max (contourArea cv) c0 rest;
                   epsilon = (4 / 100) * arcLength cv c True;
                   approx = approxPolyDP cv c epsilon True
               in classify cv approx c)))"

subsection \<open>Example data\<close>

text \<open>
  The outline of an arrow pointing right, with swept-back barbs: the two notches are at
  indices 1 and 5.
\<close>

definition arrow_outline :: contour where
  "arrow_outline = [(0, 4), (8, 4), (6, 0), (14, 6), (6, 12), (8, 8), (0, 8)]"

definition arrow_polygon :: contour where
  "arrow_polygon = [(0, 4), (6, 0), (14, 6), (6, 12), (0, 8)]"

definition arrow_defects :: "defect list" where
  "arrow_defects = [(0, 2, 1, 1136), (4, 6, 5, 1136)]"

text \<open>
  A contour that crosses itself: its hull visits the vertices in the order 0, 2, 1, 4, which
  is not monotonous.
\<close>

definition crossed_outline :: contour where
  "crossed_outline = [(0, 0), (20, 10), (20, 0), (10, 4), (0, 10)]"

text \<open>
  A contour with two notches that are exact right angles, at indices 1 and 4, with its
  defects.
\<close>

definition right_angle_outline :: contour where
  "right_angle_outline = [(0, 0), (3, 3), (6, 0), (6, 10), (3, 7), (0, 10)]"

definition right_angle_defects :: "defect list" where
  "right_angle_defects = [(0, 2, 1, 768), (3, 5, 4, 768)]"

text \<open>
  The values of \<open>np.arccos\<close> at the three cosines that the examples reach, as the C library
  returns them in binary64: at 0, at the cosine of the notches of the arrow and at the
  cosine that line 225 computes for the right-angled notches.
\<close>

definition arccos_table :: "real \<Rightarrow> real" where
  "arccos_table x =
     (if x = 8056283928194523 / 18014398509481984
        then 1246538638225297 / 1125899906842624
      else if x = - (4003199668773775 / 20282409603651670423947251286016)
        then 7074237752028441 / 4503599627370496
      else 884279719003555 / 562949953421312)"

text \<open>Twice the signed area enclosed by a closed polygon, by the shoelace sum.\<close>

fun shoelace :: "point \<Rightarrow> contour \<Rightarrow> int" where
  "shoelace p0 [] = 0"
| "shoelace p0 [p] = fst p * snd p0 - fst p0 * snd p"
| "shoelace p0 (p # q # ps) = fst p * snd q - fst q * snd p + shoelace p0 (q # ps)"

text \<open>
  A library for the examples. An image is the list of the contours drawn on it; the
  filters leave it alone. The hull and the defects are those of the arrow outline, and
  the simplification takes the notches out of it. On the contour that crosses itself
  \<open>convexityDefects\<close> raises, as OpenCV does.
\<close>

definition example_cv :: "contour list cv" where
  "example_cv =
     \<lparr> cvtColor = (\<lambda>img code. img),
       GaussianBlur = (\<lambda>img ksize sigma. img),
       Canny = (\<lambda>img lo hi. img),
       findContours = (\<lambda>img mode method. (img, [])),
       contourArea = (\<lambda>c. case c of [] \<Rightarrow> 0 | p # ps \<Rightarrow> \<bar>real_of_int (shoelace p c)\<bar> / 2),
       arcLength = (\<lambda>c closed. 0),
       approxPolyDP = (\<lambda>c epsilon closed. if c = arrow_outline then arrow_polygon else c),
       convexHull =
         (\<lambda>c. if c = arrow_outline then [0, 2, 3, 4, 6]
              else if c = crossed_outline then [0, 2, 1, 4]
              else if c = right_angle_outline then [0, 2, 3, 5]
              else map int [0..<length c]),
       convexityDefects =
         (\<lambda>c h. if c = arrow_outline then Inr (Some arrow_defects)
                else if c = crossed_outline then Inl CvError
                else if c = right_angle_outline then Inr (Some right_angle_defects)
                else Inr None),
       np_arccos = arccos_table \<rparr>"

section \<open>Properties\<close>

subsection \<open>Rounding\<close>

lemma rnint_eqI: "\<bar>x - of_int m\<bar> < 1 / 2 \<Longrightarrow> rnint x = m"
proof (cases "of_int m \<le> x")
  case True
  assume "\<bar>x - of_int m\<bar> < 1 / 2"
  with True have "\<lfloor>x\<rfloor> = m" by (intro floor_unique) auto
  moreover from True \<open>\<bar>x - of_int m\<bar> < 1 / 2\<close> have "x - of_int m < 1 / 2" by simp
  ultimately show ?thesis by (simp add: rnint_def Let_def)
next
  case False
  assume a: "\<bar>x - of_int m\<bar> < 1 / 2"
  with False have "\<lfloor>x\<rfloor> = m - 1" by (intro floor_unique) auto
  moreover from False a have "1 / 2 < x - of_int (m - 1)" by simp
  ultimately show ?thesis by (simp add: rnint_def Let_def)
qed

lemma rnint_of_int: "rnint (of_int m) = m"
  by (rule rnint_eqI) simp

lemma rnint_cases: "rnint x = \<lfloor>x\<rfloor> \<or> rnint x = \<lfloor>x\<rfloor> + 1"
  by (simp add: rnint_def Let_def)

lemma rnint_ge: "of_int n \<le> x \<Longrightarrow> n \<le> rnint x"
proof -
  assume "of_int n \<le> x"
  then have "n \<le> \<lfloor>x\<rfloor>" by (simp add: le_floor_iff)
  with rnint_cases [of x] show ?thesis by auto
qed

lemma rnint_le: "x \<le> of_int n \<Longrightarrow> rnint x \<le> n"
proof (cases "x = of_int n")
  case True
  then show ?thesis by (simp add: rnint_of_int)
next
  case False
  assume "x \<le> of_int n"
  with False have "x < of_int n" by simp
  then have "\<lfloor>x\<rfloor> < n" by (simp add: floor_less_iff)
  with rnint_cases [of x] show ?thesis by auto
qed

lemma rne_zero: "rne 0 = 0"
  by (simp add: rne_def)

lemma rne_eqI:
  assumes p: "p = 2 powr of_int e"
    and lo: "p * 2 ^ 52 \<le> \<bar>x\<bar>" and hi: "\<bar>x\<bar> < p * 2 ^ 53"
    and m: "\<bar>x / p - of_int m\<bar> < 1 / 2"
  shows "rne x = of_int m * p"
proof -
  have ppos: "0 < p" by (simp add: p)
  with lo have x0: "x \<noteq> 0" by (auto simp: not_le dest: less_le_trans [of 0 "p * 2 ^ 52"])
  have e52: "p * 2 ^ 52 = 2 powr (of_int (e + 52))"
    by (simp add: p powr_add powr_realpow [symmetric])
  have e53: "p * 2 ^ 53 = 2 powr (of_int (e + 53))"
    by (simp add: p powr_add powr_realpow [symmetric])
  have "of_int (e + 52) \<le> log 2 \<bar>x\<bar>"
    using lo x0 unfolding e52 by (simp add: le_log_iff)
  moreover have "log 2 \<bar>x\<bar> < of_int (e + 53)"
    using hi x0 unfolding e53 by (simp add: log_less_iff)
  ultimately have "\<lfloor>log 2 \<bar>x\<bar>\<rfloor> = e + 52"
    by (intro floor_unique) auto
  then have "rne x = of_int (rnint (x / p)) * p"
    using x0 by (simp add: rne_def Let_def p)
  with rnint_eqI [OF m] show ?thesis by simp
qed


lemma rne_form:
  assumes "x \<noteq> 0"
  obtains e m where "rne x = of_int m * 2 powr of_int e"
    and "2 ^ 52 \<le> \<bar>m\<bar>" and "\<bar>m\<bar> \<le> 2 ^ 53"
proof -
  define e where "e = \<lfloor>log 2 \<bar>x\<bar>\<rfloor> - 52"
  define p :: real where "p = 2 powr of_int e"
  define m where "m = rnint (x / p)"
  have ppos: "0 < p" by (simp add: p_def)
  have r: "rne x = of_int m * p"
    using assms by (simp add: rne_def Let_def m_def p_def e_def)
  have "of_int (e + 52) \<le> log 2 \<bar>x\<bar>" "log 2 \<bar>x\<bar> < of_int (e + 53)"
    by (simp_all add: e_def) linarith+
  then have "2 powr of_int (e + 52) \<le> \<bar>x\<bar>" "\<bar>x\<bar> < 2 powr of_int (e + 53)"
    using assms by (simp_all add: le_log_iff log_less_iff)
  moreover have "2 powr of_int (e + 52) = p * 2 ^ 52" "2 powr of_int (e + 53) = p * 2 ^ 53"
    by (simp_all add: p_def powr_add powr_realpow [symmetric])
  ultimately have lo: "p * 2 ^ 52 \<le> \<bar>x\<bar>" and hi: "\<bar>x\<bar> < p * 2 ^ 53" by simp_all
  have lo': "2 ^ 52 \<le> \<bar>x / p\<bar>" and hi': "\<bar>x / p\<bar> < 2 ^ 53"
    using lo hi ppos by (simp_all add: field_simps)
  have "2 ^ 52 \<le> \<bar>m\<bar> \<and> \<bar>m\<bar> \<le> 2 ^ 53"
  proof (cases "0 \<le> x / p")
    case True
    with lo' hi' have "of_int (2 ^ 52) \<le> x / p" "x / p \<le> of_int (2 ^ 53)" by simp_all
    then have "2 ^ 52 \<le> m" "m \<le> 2 ^ 53"
      unfolding m_def by (auto intro: rnint_ge rnint_le)
    then show ?thesis by simp
  next
    case False
    with lo' hi' have "x / p \<le> of_int (- (2 ^ 52))" "of_int (- (2 ^ 53)) \<le> x / p" by simp_all
    then have "m \<le> - (2 ^ 52)" "- (2 ^ 53) \<le> m"
      unfolding m_def by (auto intro: rnint_ge rnint_le)
    then show ?thesis by simp
  qed
  with r that [of m e] show thesis by (simp add: p_def)
qed

lemma rne_eq_0_iff: "rne x = 0 \<longleftrightarrow> x = 0"
proof
  assume z: "rne x = 0"
  show "x = 0"
  proof (rule ccontr)
    assume "x \<noteq> 0"
    then obtain e m where "rne x = of_int m * 2 powr of_int e" and "2 ^ 52 \<le> \<bar>m\<bar>"
      by (rule rne_form)
    with z show False by auto
  qed
qed (simp add: rne_zero)

lemma rne_idem: "rne (rne x) = rne x"
proof (cases "x = 0")
  case True
  then show ?thesis by (simp add: rne_zero)
next
  case False
  then obtain e m where r: "rne x = of_int m * 2 powr of_int e"
    and lo: "2 ^ 52 \<le> \<bar>m\<bar>" and hi: "\<bar>m\<bar> \<le> 2 ^ 53"
    by (rule rne_form)
  define p :: real where "p = 2 powr of_int e"
  have ppos: "0 < p" by (simp add: p_def)
  have abs: "\<bar>of_int m * p\<bar> = of_int \<bar>m\<bar> * p"
    using ppos by (simp add: abs_mult)
  show ?thesis
  proof (cases "\<bar>m\<bar> = 2 ^ 53")
    case False
    with hi have lt: "\<bar>m\<bar> < 2 ^ 53" by simp
    have "rne (of_int m * p) = of_int m * p"
    proof (rule rne_eqI [where e = e])
      show "p = 2 powr of_int e" by (simp add: p_def)
      have "(2 ^ 52 :: real) \<le> of_int \<bar>m\<bar>" using lo by (metis of_int_le_iff of_int_numeral of_int_power)
      then show "p * 2 ^ 52 \<le> \<bar>of_int m * p\<bar>"
        unfolding abs using ppos by (simp add: mult.commute)
      have "of_int \<bar>m\<bar> < (2 ^ 53 :: real)" using lt by (metis of_int_less_iff of_int_numeral of_int_power)
      then show "\<bar>of_int m * p\<bar> < p * 2 ^ 53"
        unfolding abs using ppos by (simp add: mult.commute)
      show "\<bar>of_int m * p / p - of_int m\<bar> < 1 / 2" using ppos by simp
    qed
    then show ?thesis by (simp add: r p_def)
  next
    case True
    define m' where "m' = m div 2"
    from True have "m = 2 ^ 53 \<or> m = - (2 ^ 53)" by (auto simp: abs_if split: if_splits)
    then have m2: "m = 2 * m'"
      unfolding m'_def by auto
    have "rne (of_int m * p) = of_int m' * (2 * p)"
    proof (rule rne_eqI [where e = "e + 1"])
      show "2 * p = 2 powr of_int (e + 1)" by (simp add: p_def powr_add)
      have a: "\<bar>of_int m * p\<bar> = 2 ^ 53 * p"
        unfolding abs True by simp
      show "2 * p * 2 ^ 52 \<le> \<bar>of_int m * p\<bar>" unfolding a by simp
      show "\<bar>of_int m * p\<bar> < 2 * p * 2 ^ 53" unfolding a using ppos by simp
      show "\<bar>of_int m * p / (2 * p) - of_int m'\<bar> < 1 / 2" using ppos by (simp add: m2)
    qed
    then show ?thesis by (simp add: r p_def m2)
  qed
qed


lemma two_powr_int:
  "2 powr of_int (int k) = (2 :: real) ^ k" "2 powr of_int (- int k) = 1 / (2 :: real) ^ k"
proof -
  show "2 powr of_int (int k) = (2 :: real) ^ k"
    by (simp add: powr_realpow)
  have "2 powr of_int (- int k) = 2 powr (- real k)" by simp
  also have "\<dots> = 1 / (2 :: real) ^ k"
    by (simp only: powr_minus powr_realpow zero_less_numeral inverse_eq_divide)
  finally show "2 powr of_int (- int k) = 1 / (2 :: real) ^ k" .
qed

lemma rne_scaledI:
  assumes "p = 2 ^ k \<or> p = 1 / 2 ^ k"
    and "p * 2 ^ 52 \<le> \<bar>x\<bar>" and "\<bar>x\<bar> < p * 2 ^ 53"
    and "\<bar>x / p - of_int m\<bar> < 1 / 2"
  shows "rne x = of_int m * p"
proof -
  from assms(1) obtain e where "p = 2 powr of_int e"
    using two_powr_int [of k, symmetric] by blast
  from this assms(2-4) show ?thesis by (rule rne_eqI)
qed

lemma rne_sqrt_scaledI:
  assumes "p = 2 ^ k \<or> p = 1 / 2 ^ k"
    and "(p * 2 ^ 52)\<^sup>2 \<le> n" and "n < (p * 2 ^ 53)\<^sup>2"
    and "1 \<le> m"
    and "((of_int m - 1 / 2) * p)\<^sup>2 < n" and "n < ((of_int m + 1 / 2) * p)\<^sup>2"
  shows "rne (sqrt n) = of_int m * p"
proof (rule rne_scaledI [OF assms(1)])
  from assms(1) have ppos: "0 < p" by auto
  have n0: "0 \<le> n" using assms(2) by (meson order_trans zero_le_power2)
  have lo: "p * 2 ^ 52 \<le> sqrt n"
    using assms(2) by (rule real_le_rsqrt)
  have hi: "sqrt n < p * 2 ^ 53"
    using assms(3) ppos by (intro real_less_lsqrt) simp_all
  from lo ppos have s0: "0 \<le> sqrt n" by (meson less_eq_real_def mult_pos_pos order_trans zero_less_numeral zero_less_power)
  show "p * 2 ^ 52 \<le> \<bar>sqrt n\<bar>" using lo s0 by simp
  show "\<bar>sqrt n\<bar> < p * 2 ^ 53" using hi s0 by simp
  have m: "0 \<le> (of_int m - 1 / 2 :: real)" "0 \<le> (of_int m + 1 / 2 :: real)"
    using assms(4) by simp_all
  have "(of_int m - 1 / 2) * p < sqrt n"
    using assms(5) by (rule real_less_rsqrt)
  moreover have "sqrt n < (of_int m + 1 / 2) * p"
    using assms(6) m ppos by (intro real_less_lsqrt) simp_all
  ultimately have "of_int m - 1 / 2 < sqrt n / p" "sqrt n / p < of_int m + 1 / 2"
    using ppos by (simp_all add: field_simps)
  then show "\<bar>sqrt n / p - of_int m\<bar> < 1 / 2" by (simp only: abs_less_iff) linarith
qed

lemma rne_evalI:
  assumes "y = of_int m * p" and "p = 2 ^ k \<or> p = 1 / 2 ^ k"
    and "p * 2 ^ 52 \<le> \<bar>x\<bar>" and "\<bar>x\<bar> < p * 2 ^ 53"
    and "\<bar>x / p - of_int m\<bar> < 1 / 2"
  shows "rne x = y"
  unfolding assms(1) using assms(2-5) by (rule rne_scaledI)

lemma rne_sqrt_evalI:
  assumes "y = of_int m * p" and "p = 2 ^ k \<or> p = 1 / 2 ^ k"
    and "(p * 2 ^ 52)\<^sup>2 \<le> n" and "n < (p * 2 ^ 53)\<^sup>2"
    and "1 \<le> m"
    and "((of_int m - 1 / 2) * p)\<^sup>2 < n" and "n < ((of_int m + 1 / 2) * p)\<^sup>2"
  shows "rne (sqrt n) = y"
  unfolding assms(1) using assms(2-7) by (rule rne_sqrt_scaledI)

lemma fl_norm_sym: "fl_norm p q = fl_norm q p"
  by (simp add: fl_norm_def power2_commute)

lemma fl_norm_zero_iff: "fl_norm p q = 0 \<longleftrightarrow> p = q"
proof -
  have "fl_norm p q = 0 \<longleftrightarrow> (fst p - fst q)\<^sup>2 + (snd p - snd q)\<^sup>2 = 0"
    by (simp add: fl_norm_def rne_eq_0_iff del: of_int_add of_int_power)
  also have "\<dots> \<longleftrightarrow> fst p = fst q \<and> snd p = snd q"
    by simp
  also have "\<dots> \<longleftrightarrow> p = q"
    by (simp add: prod_eq_iff)
  finally show ?thesis .
qed

lemma angle_at_degenerate:
  assumes "start = far \<or> en = far"
  shows "rne (rne (rne (fl_norm start far * fl_norm start far)
                    + rne (fl_norm en far * fl_norm en far))
              - rne (fl_norm start en * fl_norm start en)) = 0"
    and "rne (rne (2 * fl_norm start far) * fl_norm en far) = 0"
    and "angle_at cv start en far = NaN"
proof -
  have z: "fl_norm p p = 0" for p by (simp add: fl_norm_zero_iff)
  show num: "rne (rne (rne (fl_norm start far * fl_norm start far)
                    + rne (fl_norm en far * fl_norm en far))
              - rne (fl_norm start en * fl_norm start en)) = 0"
    using assms
  proof
    assume "start = far"
    then show ?thesis
      by (simp add: z rne_zero rne_idem fl_norm_sym [of far en])
  next
    assume "en = far"
    then show ?thesis
      by (simp add: z rne_zero rne_idem)
  qed
  show den: "rne (rne (2 * fl_norm start far) * fl_norm en far) = 0"
    using assms by (auto simp: z rne_zero)
  show "angle_at cv start en far = NaN"
    unfolding angle_at_def Let_def num den by (simp add: np_div_def)
qed

subsection \<open>The included angle of the specification\<close>

lemma norm_diff_nonneg: "0 \<le> norm_diff p q"
  by (simp add: norm_diff_def)

lemma norm_diff_sq:
  "(norm_diff p q)\<^sup>2 = real_of_int ((fst p - fst q)\<^sup>2 + (snd p - snd q)\<^sup>2)"
  by (simp add: norm_diff_def)

lemma norm_diff_zero_iff: "norm_diff p q = 0 \<longleftrightarrow> p = q"
proof -
  have "norm_diff p q = 0 \<longleftrightarrow> (fst p - fst q)\<^sup>2 + (snd p - snd q)\<^sup>2 = 0"
    by (simp add: norm_diff_def del: of_int_add of_int_power)
  also have "\<dots> \<longleftrightarrow> fst p = fst q \<and> snd p = snd q"
    by simp
  also have "\<dots> \<longleftrightarrow> p = q"
    by (simp add: prod_eq_iff)
  finally show ?thesis .
qed

lemma cosine_numerator:
  "(norm_diff start far)\<^sup>2 + (norm_diff en far)\<^sup>2 - (norm_diff start en)\<^sup>2
     = 2 * real_of_int (dot_at start en far)"
proof -
  have "(fst start - fst far)\<^sup>2 + (snd start - snd far)\<^sup>2
        + ((fst en - fst far)\<^sup>2 + (snd en - snd far)\<^sup>2)
        - ((fst start - fst en)\<^sup>2 + (snd start - snd en)\<^sup>2)
        = 2 * dot_at start en far"
    by (simp add: dot_at_def power2_eq_square algebra_simps)
  then have "real_of_int ((fst start - fst far)\<^sup>2 + (snd start - snd far)\<^sup>2
        + ((fst en - fst far)\<^sup>2 + (snd en - snd far)\<^sup>2)
        - ((fst start - fst en)\<^sup>2 + (snd start - snd en)\<^sup>2))
        = real_of_int (2 * dot_at start en far)"
    by (rule arg_cong)
  then show ?thesis
    unfolding norm_diff_sq by simp
qed

lemma cauchy_schwarz_int:
  "(dot_at start en far)\<^sup>2
     \<le> ((fst start - fst far)\<^sup>2 + (snd start - snd far)\<^sup>2)
       * ((fst en - fst far)\<^sup>2 + (snd en - snd far)\<^sup>2)"
proof -
  define x1 y1 x2 y2 where "x1 = fst start - fst far" and "y1 = snd start - snd far"
    and "x2 = fst en - fst far" and "y2 = snd en - snd far"
  have "(x1\<^sup>2 + y1\<^sup>2) * (x2\<^sup>2 + y2\<^sup>2) - (x1 * x2 + y1 * y2)\<^sup>2 = (x1 * y2 - x2 * y1)\<^sup>2"
    by (simp add: power2_eq_square algebra_simps)
  moreover have "0 \<le> (x1 * y2 - x2 * y1)\<^sup>2" by simp
  ultimately have "(x1 * x2 + y1 * y2)\<^sup>2 \<le> (x1\<^sup>2 + y1\<^sup>2) * (x2\<^sup>2 + y2\<^sup>2)"
    by linarith
  then show ?thesis
    by (simp add: dot_at_def x1_def y1_def x2_def y2_def)
qed

lemma dot_bound:
  "\<bar>real_of_int (dot_at start en far)\<bar> \<le> norm_diff start far * norm_diff en far"
proof -
  let ?d = "real_of_int (dot_at start en far)"
  let ?b = "norm_diff start far" and ?c = "norm_diff en far"
  have "?d\<^sup>2 \<le> ?b\<^sup>2 * ?c\<^sup>2"
    unfolding norm_diff_sq of_int_mult [symmetric] of_int_power [symmetric] of_int_le_iff
    by (rule cauchy_schwarz_int)
  then have "\<bar>?d\<bar>\<^sup>2 \<le> (?b * ?c)\<^sup>2"
    by (simp add: power_mult_distrib)
  moreover have "0 \<le> ?b * ?c"
    by (simp add: norm_diff_nonneg)
  ultimately show ?thesis
    by (rule power2_le_imp_le)
qed


lemma spec_included_angle_le_90_iff:
  "(\<exists>\<theta>. spec_included_angle start en far = Some \<theta> \<and> \<theta> \<le> 90)
     \<longleftrightarrow> start \<noteq> far \<and> en \<noteq> far \<and> 0 \<le> dot_at start en far"
proof (cases "start = far \<or> en = far")
  case True
  then show ?thesis by (auto simp: spec_included_angle_def Let_def norm_diff_zero_iff)
next
  case False
  let ?d = "real_of_int (dot_at start en far)"
  let ?b = "norm_diff start far" and ?c = "norm_diff en far"
  let ?r = "?d / (?b * ?c)"
  from False have ne: "start \<noteq> far" "en \<noteq> far" by auto
  have pos: "0 < ?b * ?c"
    using ne norm_diff_nonneg [of start far] norm_diff_nonneg [of en far]
    by (simp add: norm_diff_zero_iff less_le)
  have r: "\<bar>?r\<bar> \<le> 1"
    using dot_bound [of start en far] pos by (simp add: abs_if divide_simps split: if_splits)
  have q: "((?b)\<^sup>2 + (?c)\<^sup>2 - (norm_diff start en)\<^sup>2) / (2 * ?b * ?c) = ?r"
    by (simp add: cosine_numerator)
  have a: "spec_included_angle start en far = Some (arccos ?r * 180 / pi)"
    using ne unfolding spec_included_angle_def Let_def q by (simp add: norm_diff_zero_iff)
  have "(\<exists>\<theta>. spec_included_angle start en far = Some \<theta> \<and> \<theta> \<le> 90) \<longleftrightarrow> arccos ?r * 180 / pi \<le> 90"
    by (simp add: a)
  also have "\<dots> \<longleftrightarrow> arccos ?r \<le> arccos 0"
    by (simp add: divide_simps mult.commute)
  also have "\<dots> \<longleftrightarrow> 0 \<le> ?r"
    using r by (subst arccos_le_mono) simp_all
  also have "\<dots> \<longleftrightarrow> 0 \<le> ?d"
    using pos by (simp add: zero_le_divide_iff)
  finally show ?thesis using ne by simp
qed

lemma spec_included_angle_right:
  assumes "start \<noteq> far" "en \<noteq> far" "dot_at start en far = 0"
  shows "spec_included_angle start en far = Some 90"
proof -
  have "((norm_diff start far)\<^sup>2 + (norm_diff en far)\<^sup>2 - (norm_diff start en)\<^sup>2)
          / (2 * norm_diff start far * norm_diff en far) = 0"
    by (simp add: cosine_numerator assms(3))
  then show ?thesis
    using assms(1,2) unfolding spec_included_angle_def Let_def
    by (simp add: norm_diff_zero_iff)
qed

subsection \<open>The loop over the defects\<close>

lemma np_index_valid:
  "valid_index contour i \<Longrightarrow>
     np_index contour i = Inr (contour ! nat (if i < 0 then int (length contour) + i else i))"
  by (simp add: np_index_def valid_index_def Let_def)

lemma np_index_invalid: "\<not> valid_index contour i \<Longrightarrow> np_index contour i = Inl IndexError"
  by (auto simp: np_index_def valid_index_def Let_def)

lemma defect_ok_angle: "defect_ok contour d \<Longrightarrow> \<exists>angle. defect_angle cv contour d = Inr angle"
  by (cases d) (auto simp: np_index_valid)

lemma sharp_defect_ok: "sharp cv contour d \<Longrightarrow> defect_ok contour d"
proof (cases d)
  case (fields s e f dd)
  assume "sharp cv contour d"
  then show ?thesis
    using np_index_invalid [of contour s] np_index_invalid [of contour e]
      np_index_invalid [of contour f]
    by (auto simp: fields sharp_def split: sum.splits)
qed

lemma arrow_loop_step:
  assumes "defect_ok contour d"
  shows "arrow_loop cv contour (d # ds) count =
           (if 1 < count + (if sharp cv contour d then 1 else 0) then Inr True
            else arrow_loop cv contour ds (count + (if sharp cv contour d then 1 else 0)))"
proof -
  from defect_ok_angle [OF assms] obtain angle where "defect_angle cv contour d = Inr angle" ..
  then show ?thesis by (simp add: sharp_def Let_def)
qed

lemma arrow_loop_count:
  "list_all (defect_ok contour) ds \<Longrightarrow> count \<le> 1 \<Longrightarrow>
     arrow_loop cv contour ds count
       = Inr (2 \<le> count + int (length (filter (sharp cv contour) ds)))"
proof (induction ds arbitrary: count)
  case Nil
  then show ?case by simp
next
  case (Cons d ds)
  then have ok: "defect_ok contour d" and oks: "list_all (defect_ok contour) ds" by simp_all
  show ?case
  proof (cases "1 < count + (if sharp cv contour d then 1 else 0)")
    case True
    then show ?thesis
      unfolding arrow_loop_step [OF ok] by (simp split: if_splits)
  next
    case False
    then have "count + (if sharp cv contour d then 1 else 0) \<le> 1" by simp
    from Cons.IH [OF oks this] False show ?thesis
      unfolding arrow_loop_step [OF ok] by (simp split: if_splits)
  qed
qed

lemma arrow_loop_prefix:
  "list_all (defect_ok contour) pre \<Longrightarrow>
   count + int (length (filter (sharp cv contour) pre)) \<le> 1 \<Longrightarrow> 0 \<le> count \<Longrightarrow>
     arrow_loop cv contour (pre @ ds) count
       = arrow_loop cv contour ds (count + int (length (filter (sharp cv contour) pre)))"
proof (induction pre arbitrary: count)
  case Nil
  then show ?case by simp
next
  case (Cons d pre)
  then have ok: "defect_ok contour d" and oks: "list_all (defect_ok contour) pre" by simp_all
  let ?k = "count + (if sharp cv contour d then 1 else 0)"
  from Cons.prems have le: "?k + int (length (filter (sharp cv contour) pre)) \<le> 1" and k0: "0 \<le> ?k"
    by (simp_all split: if_splits)
  then have "\<not> 1 < ?k" by linarith
  then have "arrow_loop cv contour ((d # pre) @ ds) count = arrow_loop cv contour (pre @ ds) ?k"
    unfolding append_Cons arrow_loop_step [OF ok] by simp
  also have "\<dots> = arrow_loop cv contour ds (?k + int (length (filter (sharp cv contour) pre)))"
    by (rule Cons.IH [OF oks le k0])
  also have "?k + int (length (filter (sharp cv contour) pre))
               = count + int (length (filter (sharp cv contour) (d # pre)))"
    by simp
  finally show ?case .
qed

lemma arrow_loop_second_sharp:
  assumes "list_all (defect_ok contour) pre" "length (filter (sharp cv contour) pre) = 1"
    "sharp cv contour d"
  shows "arrow_loop cv contour (pre @ d # rest) 0 = Inr True"
proof -
  have "arrow_loop cv contour (pre @ d # rest) 0
          = arrow_loop cv contour (d # rest) (0 + int (length (filter (sharp cv contour) pre)))"
    by (rule arrow_loop_prefix) (use assms in simp_all)
  also have "\<dots> = Inr True"
    unfolding assms(2) arrow_loop_step [OF sharp_defect_ok [OF assms(3)]] using assms(3) by simp
  finally show ?thesis .
qed

subsection \<open>The pipeline and the dispatch\<close>

lemma detect_shape_found:
  "detect_shape cv canvas =
     (case found_contours cv canvas of
        [] \<Rightarrow> Inr ''No shape detected''
      | c0 # rest \<Rightarrow>
          classify cv
            (approxPolyDP cv (py_max (contourArea cv) c0 rest)
               (4 / 100 * arcLength cv (py_max (contourArea cv) c0 rest) True) True)
            (py_max (contourArea cv) c0 rest))"
  by (simp add: detect_shape_def found_contours_def Let_def split: list.splits)

lemma py_max_mem: "py_max key m xs \<in> set (m # xs)"
  by (induction xs arbitrary: m) auto

lemma py_max_start: "key m \<le> key (py_max key m xs)"
proof (induction xs arbitrary: m)
  case Nil
  show ?case by simp
next
  case (Cons x xs)
  show ?case
    using Cons.IH [of x] Cons.IH [of m] by (cases "key m < key x") auto
qed

lemma py_max_greatest: "x \<in> set (m # xs) \<Longrightarrow> key x \<le> key (py_max key m xs)"
proof (induction xs arbitrary: m)
  case Nil
  then show ?case by simp
next
  case (Cons y ys)
  let ?m' = "if key m < key y then y else m"
  from Cons.prems consider "x = m" | "x = y" | "x \<in> set ys" by auto
  then show ?case
  proof cases
    case 1
    then show ?thesis using py_max_start [of key m "y # ys"] by simp
  next
    case 2
    have "key y \<le> key ?m'" by simp
    also have "\<dots> \<le> key (py_max key ?m' ys)" by (rule py_max_start)
    finally show ?thesis using 2 by simp
  next
    case 3
    then have "x \<in> set (?m' # ys)" by simp
    from Cons.IH [OF this] show ?thesis by simp
  qed
qed

lemma Min_le_Max_list: "xs \<noteq> [] \<Longrightarrow> Min (set xs) \<le> (Max (set xs) :: int)"
proof -
  assume "xs \<noteq> []"
  then have "hd xs \<in> set xs" by simp
  then have "Min (set xs) \<le> hd xs" and "hd xs \<le> Max (set xs)" by simp_all
  then show ?thesis by (rule order_trans)
qed

lemma boundingRect_extent:
  assumes "pts \<noteq> []" "boundingRect pts = (x, y, w, h)"
  shows "0 < w \<and> 0 < h"
proof -
  have "Min (set (map fst pts)) \<le> Max (set (map fst pts))"
    using assms(1) by (intro Min_le_Max_list) simp
  moreover have "Min (set (map snd pts)) \<le> Max (set (map snd pts))"
    using assms(1) by (intro Min_le_Max_list) simp
  ultimately show ?thesis
    using assms by (auto simp: boundingRect_def Let_def)
qed

lemma classify_four:
  assumes "length approx = 4" "boundingRect approx = (x, y, w, h)"
  shows "classify cv approx c =
           Inr (if 95 / 100 \<le> real_of_int w / real_of_int h \<and> real_of_int w / real_of_int h \<le> 105 / 100
                then ''Square'' else ''Rectangle'')"
proof -
  from assms(1) have "approx \<noteq> []" by auto
  from boundingRect_extent [OF this assms(2)] have "h \<noteq> 0" by simp
  then show ?thesis
    using assms by (simp add: classify_def Let_def)
qed

lemma boundingRect_covers:
  assumes "boundingRect pts = (x, y, w, h)" "p \<in> set pts"
  shows "x \<le> fst p \<and> fst p < x + w \<and> y \<le> snd p \<and> snd p < y + h"
proof -
  from assms(2) have ne: "pts \<noteq> []" by auto
  have "Min (set (map fst pts)) \<le> fst p" "fst p \<le> Max (set (map fst pts))"
    "Min (set (map snd pts)) \<le> snd p" "snd p \<le> Max (set (map snd pts))"
    using assms(2) by simp_all
  then show ?thesis
    using assms(1) ne by (auto simp: boundingRect_def Let_def)
qed

lemma boundingRect_tight:
  assumes "boundingRect pts = (x, y, w, h)" "pts \<noteq> []"
  shows "x \<in> fst ` set pts \<and> x + w - 1 \<in> fst ` set pts
       \<and> y \<in> snd ` set pts \<and> y + h - 1 \<in> snd ` set pts"
proof -
  have fx: "finite (fst ` set pts)" "fst ` set pts \<noteq> {}"
    and fy: "finite (snd ` set pts)" "snd ` set pts \<noteq> {}"
    using assms(2) by simp_all
  have m: "Min (fst ` set pts) \<in> fst ` set pts" "Max (fst ` set pts) \<in> fst ` set pts"
    "Min (snd ` set pts) \<in> snd ` set pts" "Max (snd ` set pts) \<in> snd ` set pts"
    using fx fy by (auto intro: Min_in Max_in)
  from assms have x: "x = Min (fst ` set pts)" and y: "y = Min (snd ` set pts)"
    and w: "x + w - 1 = Max (fst ` set pts)" and h: "y + h - 1 = Max (snd ` set pts)"
    by (auto simp: boundingRect_def Let_def)
  show ?thesis
    unfolding w h unfolding x y using m by simp
qed

lemma boundingRect_square: "boundingRect [(0, 0), (10, 0), (10, 10), (0, 10)] = (0, 0, 11, 11)"
  by (simp add: boundingRect_def)

lemma boundingRect_wide: "boundingRect [(0, 0), (20, 0), (20, 10), (0, 10)] = (0, 0, 21, 11)"
  by (simp add: boundingRect_def)

text \<open>
  C3. A simplified polygon with exactly 4 vertices: \<open>(x, y, w, h)\<close> is its axis-aligned
  bounding rectangle (every vertex lies in it, and a vertex lies on each of its four
  sides), and the label is Square exactly when the ratio of width to height lies in the
  closed interval from 0.95 to 1.05, and Rectangle otherwise.
\<close>

theorem four_vertices_square_or_rectangle:
  assumes "length approx = 4" "boundingRect approx = (x, y, w, h)"
  shows "(\<forall>p \<in> set approx. x \<le> fst p \<and> fst p < x + w \<and> y \<le> snd p \<and> snd p < y + h)
       \<and> x \<in> fst ` set approx \<and> x + w - 1 \<in> fst ` set approx
       \<and> y \<in> snd ` set approx \<and> y + h - 1 \<in> snd ` set approx
       \<and> classify cv approx c =
           Inr (if 95 / 100 \<le> real_of_int w / real_of_int h
                   \<and> real_of_int w / real_of_int h \<le> 105 / 100
                then ''Square'' else ''Rectangle'')"
proof -
  from assms(1) have ne: "approx \<noteq> []" by auto
  show ?thesis
    using boundingRect_covers [OF assms(2)] boundingRect_tight [OF assms(2) ne]
      classify_four [OF assms]
    by blast
qed

theorem four_vertices_square_or_rectangle_witness:
  "length ([(0, 0), (10, 0), (10, 10), (0, 10)] :: contour) = 4
   \<and> boundingRect [(0, 0), (10, 0), (10, 10), (0, 10)] = (0, 0, 11, 11)
   \<and> classify example_cv [(0, 0), (10, 0), (10, 10), (0, 10)] [] = Inr ''Square''
   \<and> length ([(0, 0), (20, 0), (20, 10), (0, 10)] :: contour) = 4
   \<and> boundingRect [(0, 0), (20, 0), (20, 10), (0, 10)] = (0, 0, 21, 11)
   \<and> classify example_cv [(0, 0), (20, 0), (20, 10), (0, 10)] [] = Inr ''Rectangle''"
  using four_vertices_square_or_rectangle
      [of "[(0, 0), (10, 0), (10, 10), (0, 10)]" 0 0 11 11 example_cv "[]"]
    four_vertices_square_or_rectangle
      [of "[(0, 0), (20, 0), (20, 10), (0, 10)]" 0 0 21 11 example_cv "[]"]
  by (simp add: boundingRect_square boundingRect_wide)

text \<open>
  C5. A simplified polygon with exactly 3 vertices is labelled Triangle, and one with
  fewer than 3 vertices is labelled Unknown shape.
\<close>

theorem three_vertices_triangle_fewer_unknown:
  "(length approx = 3 \<longrightarrow> classify cv approx c = Inr ''Triangle'')
   \<and> (length approx < 3 \<longrightarrow> classify cv approx c = Inr ''Unknown shape'')"
  by (simp add: classify_def)

theorem three_vertices_triangle_fewer_unknown_witness:
  "length ([(0, 0), (10, 0), (5, 8)] :: contour) = 3
   \<and> classify example_cv [(0, 0), (10, 0), (5, 8)] [(0, 0), (10, 0), (5, 8)] = Inr ''Triangle''
   \<and> length ([(0, 0), (5, 5)] :: contour) < 3
   \<and> classify example_cv [(0, 0), (5, 5)] [(0, 0), (5, 5)] = Inr ''Unknown shape''"
  using three_vertices_triangle_fewer_unknown
      [of "[(0, 0), (10, 0), (5, 8)]" example_cv "[(0, 0), (10, 0), (5, 8)]"]
    three_vertices_triangle_fewer_unknown
      [of "[(0, 0), (5, 5)]" example_cv "[(0, 0), (5, 5)]"]
  by simp

text \<open>
  C6. When no contour is found on the canvas, \<open>detect_shape\<close> returns the label
  No shape detected, as an ordinary return value and not as an exception.
\<close>

theorem no_contours_no_shape:
  "found_contours cv canvas = [] \<Longrightarrow> detect_shape cv canvas = Inr ''No shape detected''"
  by (simp add: detect_shape_found)

theorem no_contours_no_shape_witness:
  "found_contours example_cv [] = [] \<and> detect_shape example_cv [] = Inr ''No shape detected''"
proof -
  have h: "found_contours example_cv [] = []"
    by (simp add: found_contours_def example_cv_def)
  from h no_contours_no_shape [OF h] show ?thesis by simp
qed

text \<open>
  C10. The bounding rectangle of a non-empty polygon has strictly positive height, so in
  the 4-vertex branch the division \<open>w / float(h)\<close> does not raise and the label is
  Square or Rectangle.
\<close>

theorem bounding_height_positive:
  "(approx \<noteq> [] \<longrightarrow> 0 < snd (snd (snd (boundingRect approx))))
   \<and> (length approx = 4 \<longrightarrow> classify cv approx c \<in> {Inr ''Square'', Inr ''Rectangle''})"
proof (intro conjI impI)
  assume ne: "approx \<noteq> []"
  obtain x y w h where br: "boundingRect approx = (x, y, w, h)"
    by (cases "boundingRect approx") auto
  from boundingRect_extent [OF ne br] br show "0 < snd (snd (snd (boundingRect approx)))"
    by simp
next
  assume len: "length approx = 4"
  obtain x y w h where br: "boundingRect approx = (x, y, w, h)"
    by (cases "boundingRect approx") auto
  show "classify cv approx c \<in> {Inr ''Square'', Inr ''Rectangle''}"
    unfolding classify_four [OF len br] by simp
qed

theorem bounding_height_positive_witness:
  "([(3, 7), (9, 7), (12, 7), (5, 7)] :: contour) \<noteq> []
   \<and> 0 < snd (snd (snd (boundingRect [(3, 7), (9, 7), (12, 7), (5, 7)])))
   \<and> length ([(3, 7), (9, 7), (12, 7), (5, 7)] :: contour) = 4
   \<and> classify example_cv [(3, 7), (9, 7), (12, 7), (5, 7)] [] = Inr ''Rectangle''"
proof -
  have "classify example_cv [(3, 7), (9, 7), (12, 7), (5, 7)] [] \<noteq> Inr ''Square''"
    by (simp add: classify_def boundingRect_def)
  then show ?thesis
    using bounding_height_positive [of "[(3, 7), (9, 7), (12, 7), (5, 7)]" example_cv "[]"]
    by simp
qed

subsection \<open>Line 225 on the examples\<close>

lemma angle_at_upper_notch:
  assumes "np_arccos cv (8056283928194523 / 18014398509481984) = 1246538638225297 / 1125899906842624"
  shows "angle_at cv (0, 4) (6, 0) (8, 4) = Fin (4463837685643407 / 70368744177664)"
proof -
  define a :: real where "a = 8118979690322419 / 1125899906842624"
  define b :: real where "b = 8"
  define c :: real where "c = 629397181890197 / 140737488355328"
  define A :: real where "A = 7318349394477055 / 140737488355328"
  define B :: real where "B = 64"
  define C :: real where "C = 5629499534213121 / 281474976710656"
  define S :: real where "S = 84"
  define N :: real where "N = 4503599627370497 / 140737488355328"
  define D1 :: real where "D1 = 16"
  define D :: real where "D = 629397181890197 / 8796093022208"
  define X :: real where "X = 8056283928194523 / 18014398509481984"
  define AC :: real where "AC = 1246538638225297 / 1125899906842624"
  define P :: real where "P = 438236240001081 / 2199023255552"
  define Q :: real where "Q = 4463837685643407 / 70368744177664"
  have "rne (sqrt 52) = a"
    by (rule rne_sqrt_evalI [where k = 50 and m = 8118979690322419 and p = "1 / 2 ^ 50"]) (simp_all add: a_def power2_eq_square)
  then have na: "fl_norm (0, 4) (6, 0) = a"
    by (simp add: fl_norm_def)
  have "rne (sqrt 64) = b"
    by (rule rne_sqrt_evalI [where k = 49 and m = 4503599627370496 and p = "1 / 2 ^ 49"]) (simp_all add: b_def power2_eq_square)
  then have nb: "fl_norm (0, 4) (8, 4) = b"
    by (simp add: fl_norm_def)
  have "rne (sqrt 20) = c"
    by (rule rne_sqrt_evalI [where k = 50 and m = 5035177455121576 and p = "1 / 2 ^ 50"]) (simp_all add: c_def power2_eq_square)
  then have nc: "fl_norm (6, 0) (8, 4) = c"
    by (simp add: fl_norm_def)
  have sA: "rne (a * a) = A"
    by (rule rne_evalI [where k = 47 and m = "7318349394477055" and p = "1 / 2 ^ 47"]) (simp_all add: a_def A_def)
  have sB: "rne (b * b) = B"
    by (rule rne_evalI [where k = 46 and m = "4503599627370496" and p = "1 / 2 ^ 46"]) (simp_all add: b_def B_def)
  have sC: "rne (c * c) = C"
    by (rule rne_evalI [where k = 48 and m = "5629499534213121" and p = "1 / 2 ^ 48"]) (simp_all add: c_def C_def)
  have sS: "rne (B + C) = S"
    by (rule rne_evalI [where k = 46 and m = "5910974510923776" and p = "1 / 2 ^ 46"]) (simp_all add: B_def C_def S_def)
  have sN: "rne (S - A) = N"
    by (rule rne_evalI [where k = 47 and m = "4503599627370497" and p = "1 / 2 ^ 47"]) (simp_all add: S_def A_def N_def)
  have sD1: "rne (2 * b) = D1"
    by (rule rne_evalI [where k = 48 and m = "4503599627370496" and p = "1 / 2 ^ 48"]) (simp_all add: b_def D1_def)
  have sD: "rne (D1 * c) = D"
    by (rule rne_evalI [where k = 46 and m = "5035177455121576" and p = "1 / 2 ^ 46"]) (simp_all add: D1_def c_def D_def)
  have sX: "rne (N / D) = X"
    by (rule rne_evalI [where k = 54 and m = "8056283928194523" and p = "1 / 2 ^ 54"]) (simp_all add: N_def D_def X_def)
  have sP: "rne (AC * 180) = P"
    by (rule rne_evalI [where k = 45 and m = "7011779840017296" and p = "1 / 2 ^ 45"]) (simp_all add: AC_def P_def)
  have sQ: "rne (P / np_pi) = Q"
    by (rule rne_evalI [where k = 47 and m = "8927675371286814" and p = "1 / 2 ^ 47"]) (simp_all add: P_def np_pi_def Q_def)
  have num: "rne (rne (rne (b * b) + rne (c * c)) - rne (a * a)) = N"
    by (simp only: sA sB sC sS sN)
  have den: "rne (rne (2 * b) * c) = D"
    by (simp only: sD1 sD)
  have "D \<noteq> 0" by (simp add: D_def)
  then have dv: "np_div N D = Fin X"
    by (simp add: np_div_def sX)
  have "- 1 \<le> X \<and> X \<le> 1" by (simp add: X_def)
  moreover have "np_arccos cv X = AC" using assms by (simp add: X_def AC_def)
  ultimately have ac: "arccos64 cv (Fin X) = Fin AC" by simp
  have tm: "np_times (Fin AC) 180 = Fin P" by (simp add: sP)
  have "np_pi \<noteq> 0" by (simp add: np_pi_def)
  then have ov: "np_over (Fin P) np_pi = Fin Q"
    by (simp add: np_div_def sQ)
  show ?thesis
    unfolding angle_at_def Let_def na nb nc num den dv ac tm ov by (simp add: Q_def)
qed

lemma angle_at_lower_notch:
  assumes "np_arccos cv (8056283928194523 / 18014398509481984) = 1246538638225297 / 1125899906842624"
  shows "angle_at cv (6, 12) (0, 8) (8, 8) = Fin (4463837685643407 / 70368744177664)"
proof -
  define a :: real where "a = 8118979690322419 / 1125899906842624"
  define b :: real where "b = 629397181890197 / 140737488355328"
  define c :: real where "c = 8"
  define A :: real where "A = 7318349394477055 / 140737488355328"
  define B :: real where "B = 5629499534213121 / 281474976710656"
  define C :: real where "C = 64"
  define S :: real where "S = 84"
  define N :: real where "N = 4503599627370497 / 140737488355328"
  define D1 :: real where "D1 = 629397181890197 / 70368744177664"
  define D :: real where "D = 629397181890197 / 8796093022208"
  define X :: real where "X = 8056283928194523 / 18014398509481984"
  define AC :: real where "AC = 1246538638225297 / 1125899906842624"
  define P :: real where "P = 438236240001081 / 2199023255552"
  define Q :: real where "Q = 4463837685643407 / 70368744177664"
  have "rne (sqrt 52) = a"
    by (rule rne_sqrt_evalI [where k = 50 and m = 8118979690322419 and p = "1 / 2 ^ 50"]) (simp_all add: a_def power2_eq_square)
  then have na: "fl_norm (6, 12) (0, 8) = a"
    by (simp add: fl_norm_def)
  have "rne (sqrt 20) = b"
    by (rule rne_sqrt_evalI [where k = 50 and m = 5035177455121576 and p = "1 / 2 ^ 50"]) (simp_all add: b_def power2_eq_square)
  then have nb: "fl_norm (6, 12) (8, 8) = b"
    by (simp add: fl_norm_def)
  have "rne (sqrt 64) = c"
    by (rule rne_sqrt_evalI [where k = 49 and m = 4503599627370496 and p = "1 / 2 ^ 49"]) (simp_all add: c_def power2_eq_square)
  then have nc: "fl_norm (0, 8) (8, 8) = c"
    by (simp add: fl_norm_def)
  have sA: "rne (a * a) = A"
    by (rule rne_evalI [where k = 47 and m = "7318349394477055" and p = "1 / 2 ^ 47"]) (simp_all add: a_def A_def)
  have sB: "rne (b * b) = B"
    by (rule rne_evalI [where k = 48 and m = "5629499534213121" and p = "1 / 2 ^ 48"]) (simp_all add: b_def B_def)
  have sC: "rne (c * c) = C"
    by (rule rne_evalI [where k = 46 and m = "4503599627370496" and p = "1 / 2 ^ 46"]) (simp_all add: c_def C_def)
  have sS: "rne (B + C) = S"
    by (rule rne_evalI [where k = 46 and m = "5910974510923776" and p = "1 / 2 ^ 46"]) (simp_all add: B_def C_def S_def)
  have sN: "rne (S - A) = N"
    by (rule rne_evalI [where k = 47 and m = "4503599627370497" and p = "1 / 2 ^ 47"]) (simp_all add: S_def A_def N_def)
  have sD1: "rne (2 * b) = D1"
    by (rule rne_evalI [where k = 49 and m = "5035177455121576" and p = "1 / 2 ^ 49"]) (simp_all add: b_def D1_def)
  have sD: "rne (D1 * c) = D"
    by (rule rne_evalI [where k = 46 and m = "5035177455121576" and p = "1 / 2 ^ 46"]) (simp_all add: D1_def c_def D_def)
  have sX: "rne (N / D) = X"
    by (rule rne_evalI [where k = 54 and m = "8056283928194523" and p = "1 / 2 ^ 54"]) (simp_all add: N_def D_def X_def)
  have sP: "rne (AC * 180) = P"
    by (rule rne_evalI [where k = 45 and m = "7011779840017296" and p = "1 / 2 ^ 45"]) (simp_all add: AC_def P_def)
  have sQ: "rne (P / np_pi) = Q"
    by (rule rne_evalI [where k = 47 and m = "8927675371286814" and p = "1 / 2 ^ 47"]) (simp_all add: P_def np_pi_def Q_def)
  have num: "rne (rne (rne (b * b) + rne (c * c)) - rne (a * a)) = N"
    by (simp only: sA sB sC sS sN)
  have den: "rne (rne (2 * b) * c) = D"
    by (simp only: sD1 sD)
  have "D \<noteq> 0" by (simp add: D_def)
  then have dv: "np_div N D = Fin X"
    by (simp add: np_div_def sX)
  have "- 1 \<le> X \<and> X \<le> 1" by (simp add: X_def)
  moreover have "np_arccos cv X = AC" using assms by (simp add: X_def AC_def)
  ultimately have ac: "arccos64 cv (Fin X) = Fin AC" by simp
  have tm: "np_times (Fin AC) 180 = Fin P" by (simp add: sP)
  have "np_pi \<noteq> 0" by (simp add: np_pi_def)
  then have ov: "np_over (Fin P) np_pi = Fin Q"
    by (simp add: np_div_def sQ)
  show ?thesis
    unfolding angle_at_def Let_def na nb nc num den dv ac tm ov by (simp add: Q_def)
qed

lemma angle_at_first_right_angle:
  assumes "np_arccos cv (- (4003199668773775 / 20282409603651670423947251286016)) = 7074237752028441 / 4503599627370496"
  shows "angle_at cv (0, 0) (6, 0) (3, 3) = Fin (6333186975989761 / 70368744177664)"
proof -
  define a :: real where "a = 6"
  define b :: real where "b = 4776788754394329 / 1125899906842624"
  define c :: real where "c = 4776788754394329 / 1125899906842624"
  define A :: real where "A = 36"
  define B :: real where "B = 5066549580791807 / 281474976710656"
  define C :: real where "C = 5066549580791807 / 281474976710656"
  define S :: real where "S = 5066549580791807 / 140737488355328"
  define N :: real where "N = - (1 / 140737488355328)"
  define D1 :: real where "D1 = 4776788754394329 / 562949953421312"
  define D :: real where "D = 5066549580791807 / 140737488355328"
  define X :: real where "X = - (4003199668773775 / 20282409603651670423947251286016)"
  define AC :: real where "AC = 7074237752028441 / 4503599627370496"
  define P :: real where "P = 2487036709697499 / 8796093022208"
  define Q :: real where "Q = 6333186975989761 / 70368744177664"
  have "rne (sqrt 36) = a"
    by (rule rne_sqrt_evalI [where k = 50 and m = 6755399441055744 and p = "1 / 2 ^ 50"]) (simp_all add: a_def power2_eq_square)
  then have na: "fl_norm (0, 0) (6, 0) = a"
    by (simp add: fl_norm_def)
  have "rne (sqrt 18) = b"
    by (rule rne_sqrt_evalI [where k = 50 and m = 4776788754394329 and p = "1 / 2 ^ 50"]) (simp_all add: b_def power2_eq_square)
  then have nb: "fl_norm (0, 0) (3, 3) = b"
    by (simp add: fl_norm_def)
  have "rne (sqrt 18) = c"
    by (rule rne_sqrt_evalI [where k = 50 and m = 4776788754394329 and p = "1 / 2 ^ 50"]) (simp_all add: c_def power2_eq_square)
  then have nc: "fl_norm (6, 0) (3, 3) = c"
    by (simp add: fl_norm_def)
  have sA: "rne (a * a) = A"
    by (rule rne_evalI [where k = 47 and m = "5066549580791808" and p = "1 / 2 ^ 47"]) (simp_all add: a_def A_def)
  have sB: "rne (b * b) = B"
    by (rule rne_evalI [where k = 48 and m = "5066549580791807" and p = "1 / 2 ^ 48"]) (simp_all add: b_def B_def)
  have sC: "rne (c * c) = C"
    by (rule rne_evalI [where k = 48 and m = "5066549580791807" and p = "1 / 2 ^ 48"]) (simp_all add: c_def C_def)
  have sS: "rne (B + C) = S"
    by (rule rne_evalI [where k = 47 and m = "5066549580791807" and p = "1 / 2 ^ 47"]) (simp_all add: B_def C_def S_def)
  have sN: "rne (S - A) = N"
    by (rule rne_evalI [where k = 99 and m = "- 4503599627370496" and p = "1 / 2 ^ 99"]) (simp_all add: S_def A_def N_def)
  have sD1: "rne (2 * b) = D1"
    by (rule rne_evalI [where k = 49 and m = "4776788754394329" and p = "1 / 2 ^ 49"]) (simp_all add: b_def D1_def)
  have sD: "rne (D1 * c) = D"
    by (rule rne_evalI [where k = 47 and m = "5066549580791807" and p = "1 / 2 ^ 47"]) (simp_all add: D1_def c_def D_def)
  have sX: "rne (N / D) = X"
    by (rule rne_evalI [where k = 105 and m = "- 8006399337547550" and p = "1 / 2 ^ 105"]) (simp_all add: N_def D_def X_def)
  have sP: "rne (AC * 180) = P"
    by (rule rne_evalI [where k = 44 and m = "4974073419394998" and p = "1 / 2 ^ 44"]) (simp_all add: AC_def P_def)
  have sQ: "rne (P / np_pi) = Q"
    by (rule rne_evalI [where k = 46 and m = "6333186975989761" and p = "1 / 2 ^ 46"]) (simp_all add: P_def np_pi_def Q_def)
  have num: "rne (rne (rne (b * b) + rne (c * c)) - rne (a * a)) = N"
    by (simp only: sA sB sC sS sN)
  have den: "rne (rne (2 * b) * c) = D"
    by (simp only: sD1 sD)
  have "D \<noteq> 0" by (simp add: D_def)
  then have dv: "np_div N D = Fin X"
    by (simp add: np_div_def sX)
  have "- 1 \<le> X \<and> X \<le> 1" by (simp add: X_def)
  moreover have "np_arccos cv X = AC" using assms by (simp add: X_def AC_def)
  ultimately have ac: "arccos64 cv (Fin X) = Fin AC" by simp
  have tm: "np_times (Fin AC) 180 = Fin P" by (simp add: sP)
  have "np_pi \<noteq> 0" by (simp add: np_pi_def)
  then have ov: "np_over (Fin P) np_pi = Fin Q"
    by (simp add: np_div_def sQ)
  show ?thesis
    unfolding angle_at_def Let_def na nb nc num den dv ac tm ov by (simp add: Q_def)
qed

lemma angle_at_second_right_angle:
  assumes "np_arccos cv (- (4003199668773775 / 20282409603651670423947251286016)) = 7074237752028441 / 4503599627370496"
  shows "angle_at cv (6, 10) (0, 10) (3, 7) = Fin (6333186975989761 / 70368744177664)"
proof -
  define a :: real where "a = 6"
  define b :: real where "b = 4776788754394329 / 1125899906842624"
  define c :: real where "c = 4776788754394329 / 1125899906842624"
  define A :: real where "A = 36"
  define B :: real where "B = 5066549580791807 / 281474976710656"
  define C :: real where "C = 5066549580791807 / 281474976710656"
  define S :: real where "S = 5066549580791807 / 140737488355328"
  define N :: real where "N = - (1 / 140737488355328)"
  define D1 :: real where "D1 = 4776788754394329 / 562949953421312"
  define D :: real where "D = 5066549580791807 / 140737488355328"
  define X :: real where "X = - (4003199668773775 / 20282409603651670423947251286016)"
  define AC :: real where "AC = 7074237752028441 / 4503599627370496"
  define P :: real where "P = 2487036709697499 / 8796093022208"
  define Q :: real where "Q = 6333186975989761 / 70368744177664"
  have "rne (sqrt 36) = a"
    by (rule rne_sqrt_evalI [where k = 50 and m = 6755399441055744 and p = "1 / 2 ^ 50"]) (simp_all add: a_def power2_eq_square)
  then have na: "fl_norm (6, 10) (0, 10) = a"
    by (simp add: fl_norm_def)
  have "rne (sqrt 18) = b"
    by (rule rne_sqrt_evalI [where k = 50 and m = 4776788754394329 and p = "1 / 2 ^ 50"]) (simp_all add: b_def power2_eq_square)
  then have nb: "fl_norm (6, 10) (3, 7) = b"
    by (simp add: fl_norm_def)
  have "rne (sqrt 18) = c"
    by (rule rne_sqrt_evalI [where k = 50 and m = 4776788754394329 and p = "1 / 2 ^ 50"]) (simp_all add: c_def power2_eq_square)
  then have nc: "fl_norm (0, 10) (3, 7) = c"
    by (simp add: fl_norm_def)
  have sA: "rne (a * a) = A"
    by (rule rne_evalI [where k = 47 and m = "5066549580791808" and p = "1 / 2 ^ 47"]) (simp_all add: a_def A_def)
  have sB: "rne (b * b) = B"
    by (rule rne_evalI [where k = 48 and m = "5066549580791807" and p = "1 / 2 ^ 48"]) (simp_all add: b_def B_def)
  have sC: "rne (c * c) = C"
    by (rule rne_evalI [where k = 48 and m = "5066549580791807" and p = "1 / 2 ^ 48"]) (simp_all add: c_def C_def)
  have sS: "rne (B + C) = S"
    by (rule rne_evalI [where k = 47 and m = "5066549580791807" and p = "1 / 2 ^ 47"]) (simp_all add: B_def C_def S_def)
  have sN: "rne (S - A) = N"
    by (rule rne_evalI [where k = 99 and m = "- 4503599627370496" and p = "1 / 2 ^ 99"]) (simp_all add: S_def A_def N_def)
  have sD1: "rne (2 * b) = D1"
    by (rule rne_evalI [where k = 49 and m = "4776788754394329" and p = "1 / 2 ^ 49"]) (simp_all add: b_def D1_def)
  have sD: "rne (D1 * c) = D"
    by (rule rne_evalI [where k = 47 and m = "5066549580791807" and p = "1 / 2 ^ 47"]) (simp_all add: D1_def c_def D_def)
  have sX: "rne (N / D) = X"
    by (rule rne_evalI [where k = 105 and m = "- 8006399337547550" and p = "1 / 2 ^ 105"]) (simp_all add: N_def D_def X_def)
  have sP: "rne (AC * 180) = P"
    by (rule rne_evalI [where k = 44 and m = "4974073419394998" and p = "1 / 2 ^ 44"]) (simp_all add: AC_def P_def)
  have sQ: "rne (P / np_pi) = Q"
    by (rule rne_evalI [where k = 46 and m = "6333186975989761" and p = "1 / 2 ^ 46"]) (simp_all add: P_def np_pi_def Q_def)
  have num: "rne (rne (rne (b * b) + rne (c * c)) - rne (a * a)) = N"
    by (simp only: sA sB sC sS sN)
  have den: "rne (rne (2 * b) * c) = D"
    by (simp only: sD1 sD)
  have "D \<noteq> 0" by (simp add: D_def)
  then have dv: "np_div N D = Fin X"
    by (simp add: np_div_def sX)
  have "- 1 \<le> X \<and> X \<le> 1" by (simp add: X_def)
  moreover have "np_arccos cv X = AC" using assms by (simp add: X_def AC_def)
  ultimately have ac: "arccos64 cv (Fin X) = Fin AC" by simp
  have tm: "np_times (Fin AC) 180 = Fin P" by (simp add: sP)
  have "np_pi \<noteq> 0" by (simp add: np_pi_def)
  then have ov: "np_over (Fin P) np_pi = Fin Q"
    by (simp add: np_div_def sQ)
  show ?thesis
    unfolding angle_at_def Let_def na nb nc num den dv ac tm ov by (simp add: Q_def)
qed

subsection \<open>Arrow detection\<close>

lemma is_arrow_cases:
  "is_arrow cv contour =
     (if length (convexHull cv contour) < 3 then Inr False
      else (case convexityDefects cv contour (convexHull cv contour) of
              Inl err \<Rightarrow> Inl err
            | Inr None \<Rightarrow> Inr False
            | Inr (Some defects) \<Rightarrow> arrow_loop cv contour defects 0))"
  by (simp add: is_arrow_def Let_def)



lemma example_arccos:
  "np_arccos example_cv (8056283928194523 / 18014398509481984)
     = 1246538638225297 / 1125899906842624"
  "np_arccos example_cv (- (4003199668773775 / 20282409603651670423947251286016))
     = 7074237752028441 / 4503599627370496"
  by (simp_all add: example_cv_def arccos_table_def)

lemma arrow_outline_angles:
  "defect_angle example_cv arrow_outline (0, 2, 1, 1136)
     = Inr (Fin (4463837685643407 / 70368744177664))"
  "defect_angle example_cv arrow_outline (4, 6, 5, 1136)
     = Inr (Fin (4463837685643407 / 70368744177664))"
  by (simp_all add: np_index_def arrow_outline_def
      angle_at_upper_notch [OF example_arccos(1)] angle_at_lower_notch [OF example_arccos(1)])

lemma arrow_outline_sharp:
  "sharp example_cv arrow_outline (0, 2, 1, 1136)" "sharp example_cv arrow_outline (4, 6, 5, 1136)"
  unfolding sharp_def arrow_outline_angles by simp_all

lemma right_angle_outline_angles:
  "defect_angle example_cv right_angle_outline (0, 2, 1, 768)
     = Inr (Fin (6333186975989761 / 70368744177664))"
  "defect_angle example_cv right_angle_outline (3, 5, 4, 768)
     = Inr (Fin (6333186975989761 / 70368744177664))"
  by (simp_all add: np_index_def right_angle_outline_def
      angle_at_first_right_angle [OF example_arccos(2)]
      angle_at_second_right_angle [OF example_arccos(2)])

lemma arrow_outline_valid: "valid_index arrow_outline i \<longleftrightarrow> - 7 \<le> i \<and> i < 7"
  by (simp add: valid_index_def arrow_outline_def)

lemma example_cv_fields:
  "convexHull example_cv arrow_outline = [0, 2, 3, 4, 6]"
  "convexityDefects example_cv arrow_outline h = Inr (Some arrow_defects)"
  "convexHull example_cv crossed_outline = [0, 2, 1, 4]"
  "convexityDefects example_cv crossed_outline h = Inl CvError"
  "convexHull example_cv right_angle_outline = [0, 2, 3, 5]"
  "convexityDefects example_cv right_angle_outline h = Inr (Some right_angle_defects)"
  by (simp_all add: example_cv_def arrow_outline_def crossed_outline_def right_angle_outline_def)

lemma found_contours_example: "found_contours example_cv canvas = canvas"
  by (simp add: found_contours_def example_cv_def)

lemma is_arrow_example_outline: "is_arrow example_cv arrow_outline = Inr True"
proof -
  have "arrow_loop example_cv arrow_outline arrow_defects 0
          = Inr (2 \<le> 0 + int (length (filter (sharp example_cv arrow_outline) arrow_defects)))"
    by (rule arrow_loop_count) (simp_all add: arrow_defects_def arrow_outline_valid)
  then show ?thesis
    by (simp add: is_arrow_cases example_cv_fields arrow_defects_def arrow_outline_sharp)
qed

lemma is_arrow_example_polygon: "is_arrow example_cv arrow_polygon = Inr False"
  by (simp add: is_arrow_cases example_cv_def arrow_polygon_def arrow_outline_def
      crossed_outline_def right_angle_outline_def)


lemma approx_example_outline:
  "approxPolyDP example_cv arrow_outline epsilon is_closed = arrow_polygon"
  by (simp add: example_cv_def)


lemma right_angle_outline_valid: "valid_index right_angle_outline i \<longleftrightarrow> - 6 \<le> i \<and> i < 6"
  by (simp add: valid_index_def right_angle_outline_def)

lemma is_arrow_counts_sharp:
  assumes "3 \<le> length (convexHull cv contour)"
    and "convexityDefects cv contour (convexHull cv contour) = Inr (Some ds)"
    and "list_all (defect_ok contour) ds"
  shows "is_arrow cv contour = Inr (2 \<le> length (filter (sharp cv contour) ds))"
proof -
  have "arrow_loop cv contour ds 0 = Inr (2 \<le> length (filter (sharp cv contour) ds))"
    using arrow_loop_count [where contour = contour and ds = ds and count = 0 and cv = cv]
      assms(3) by simp
  with assms(1,2) show ?thesis by (simp add: is_arrow_cases)
qed

text \<open>
  C1. On the contour with two notches that are exact right angles, the hull has 4 points
  and there are two defects, each with an included angle of exactly 90 degrees. Line 225
  computes 90.00000000000001 for each of them, line 228 counts neither, and \<open>is_arrow\<close>
  returns false.
\<close>

theorem right_angle_defects_not_counted:
  "3 \<le> length (convexHull example_cv right_angle_outline)
   \<and> convexityDefects example_cv right_angle_outline (convexHull example_cv right_angle_outline)
       = Inr (Some [(0, 2, 1, 768), (3, 5, 4, 768)])
   \<and> np_index right_angle_outline 0 = Inr (0, 0)
   \<and> np_index right_angle_outline 2 = Inr (6, 0)
   \<and> np_index right_angle_outline 1 = Inr (3, 3)
   \<and> spec_included_angle (0, 0) (6, 0) (3, 3) = Some 90
   \<and> np_index right_angle_outline 3 = Inr (6, 10)
   \<and> np_index right_angle_outline 5 = Inr (0, 10)
   \<and> np_index right_angle_outline 4 = Inr (3, 7)
   \<and> spec_included_angle (6, 10) (0, 10) (3, 7) = Some 90
   \<and> defect_angle example_cv right_angle_outline (0, 2, 1, 768)
       = Inr (Fin (6333186975989761 / 70368744177664))
   \<and> defect_angle example_cv right_angle_outline (3, 5, 4, 768)
       = Inr (Fin (6333186975989761 / 70368744177664))
   \<and> (90 :: real) < 6333186975989761 / 70368744177664
   \<and> is_arrow example_cv right_angle_outline = Inr False"
proof -
  have ix: "np_index right_angle_outline 0 = Inr (0, 0)" "np_index right_angle_outline 2 = Inr (6, 0)"
    "np_index right_angle_outline 1 = Inr (3, 3)" "np_index right_angle_outline 3 = Inr (6, 10)"
    "np_index right_angle_outline 5 = Inr (0, 10)" "np_index right_angle_outline 4 = Inr (3, 7)"
    by (simp_all add: np_index_def right_angle_outline_def)
  have spec: "spec_included_angle (0, 0) (6, 0) (3, 3) = Some 90"
    "spec_included_angle (6, 10) (0, 10) (3, 7) = Some 90"
    by (rule spec_included_angle_right; simp add: dot_at_def)+
  have ns: "\<not> sharp example_cv right_angle_outline (0, 2, 1, 768)"
    "\<not> sharp example_cv right_angle_outline (3, 5, 4, 768)"
    unfolding sharp_def right_angle_outline_angles by simp_all
  have "is_arrow example_cv right_angle_outline
          = Inr (2 \<le> length (filter (sharp example_cv right_angle_outline) right_angle_defects))"
    by (rule is_arrow_counts_sharp)
      (simp_all add: example_cv_fields right_angle_defects_def right_angle_outline_valid)
  then have "is_arrow example_cv right_angle_outline = Inr False"
    by (simp add: right_angle_defects_def ns)
  then show ?thesis
    using ix spec right_angle_outline_angles
    by (simp add: example_cv_fields right_angle_defects_def)
qed

text \<open>
  C2. A defect with a zero-length edge at the farthest point: the division yields NaN
  and raises nothing, the defect is not counted as sharp, and the loop goes on to the
  remaining defects with the count unchanged.
\<close>

theorem degenerate_defect_not_counted:
  assumes "np_index contour s = Inr start" "np_index contour e = Inr en"
    "np_index contour f = Inr far"
    "fl_norm start far = 0 \<or> fl_norm en far = 0"
  shows "np_div (rne (rne (rne (fl_norm start far * fl_norm start far)
                           + rne (fl_norm en far * fl_norm en far))
                      - rne (fl_norm start en * fl_norm start en)))
             (rne (rne (2 * fl_norm start far) * fl_norm en far)) = NaN
       \<and> defect_angle cv contour (s, e, f, d) = Inr NaN
       \<and> \<not> sharp cv contour (s, e, f, d)
       \<and> (count \<le> 1 \<longrightarrow>
            arrow_loop cv contour ((s, e, f, d) # rest) count = arrow_loop cv contour rest count)"
proof -
  from assms(4) have deg: "start = far \<or> en = far"
    by (simp add: fl_norm_zero_iff)
  have dv: "np_div (rne (rne (rne (fl_norm start far * fl_norm start far)
                           + rne (fl_norm en far * fl_norm en far))
                      - rne (fl_norm start en * fl_norm start en)))
             (rne (rne (2 * fl_norm start far) * fl_norm en far)) = NaN"
    unfolding angle_at_degenerate(1,2) [OF deg] by (simp add: np_div_def)
  have ang: "defect_angle cv contour (s, e, f, d) = Inr NaN"
    using assms(1-3) by (simp add: angle_at_degenerate(3) [OF deg])
  then have ns: "\<not> sharp cv contour (s, e, f, d)"
    by (simp add: sharp_def)
  have "count \<le> 1 \<Longrightarrow>
          arrow_loop cv contour ((s, e, f, d) # rest) count = arrow_loop cv contour rest count"
    using ang by (simp add: Let_def)
  with dv ang ns show ?thesis by blast
qed

theorem degenerate_defect_not_counted_witness:
  "np_index arrow_outline 1 = Inr (8, 4) \<and> np_index arrow_outline 2 = Inr (6, 0)
   \<and> fl_norm (8, 4) (8, 4) = 0
   \<and> defect_angle example_cv arrow_outline (1, 2, 1, 0) = Inr NaN
   \<and> \<not> sharp example_cv arrow_outline (1, 2, 1, 0)
   \<and> arrow_loop example_cv arrow_outline ((1, 2, 1, 0) # arrow_defects) 0
       = arrow_loop example_cv arrow_outline arrow_defects 0"
proof -
  have i1: "np_index arrow_outline 1 = Inr (8, 4)" and i2: "np_index arrow_outline 2 = Inr (6, 0)"
    by (simp_all add: np_index_def arrow_outline_def)
  have z: "fl_norm (8, 4) (8, 4) = 0 \<or> fl_norm (6, 0) (8, 4) = 0"
    by (simp add: fl_norm_zero_iff)
  from degenerate_defect_not_counted
    [OF i1 i2 i1 z, where cv = example_cv and d = 0 and count = 0 and rest = arrow_defects] i1 i2
  show ?thesis by (simp add: fl_norm_zero_iff)
qed

subsection \<open>The labels of the pipeline\<close>

lemma classify_many:
  "4 < length approx \<Longrightarrow>
     classify cv approx c =
       (case is_arrow cv c of
          Inl err \<Rightarrow> Inl err
        | Inr arrow \<Rightarrow> Inr (if arrow then ''Arrow'' else ''Circle''))"
  by (simp add: classify_def split: sum.splits)


text \<open>
  C4. When the simplified polygon has more than 4 vertices, \<open>detect_shape\<close> runs
  \<open>is_arrow\<close> on the raw contour of largest area, not on the simplified polygon, and
  returns Arrow when that reports true and Circle otherwise.
\<close>

theorem more_than_four_arrow_or_circle:
  assumes "found_contours cv canvas = c0 # rest"
    and "c = py_max (contourArea cv) c0 rest"
    and "approx = approxPolyDP cv c (4 / 100 * arcLength cv c True) True"
    and "4 < length approx"
  shows "detect_shape cv canvas =
           (case is_arrow cv c of
              Inl err \<Rightarrow> Inl err
            | Inr arrow \<Rightarrow> Inr (if arrow then ''Arrow'' else ''Circle''))"
  using assms by (simp add: detect_shape_found classify_many)

theorem more_than_four_arrow_or_circle_witness:
  "found_contours example_cv [arrow_outline] = [arrow_outline]
   \<and> arrow_outline = py_max (contourArea example_cv) arrow_outline []
   \<and> arrow_polygon
       = approxPolyDP example_cv arrow_outline (4 / 100 * arcLength example_cv arrow_outline True) True
   \<and> 4 < length arrow_polygon
   \<and> is_arrow example_cv arrow_polygon = Inr False
   \<and> detect_shape example_cv [arrow_outline] = Inr ''Arrow''"
proof -
  have h1: "found_contours example_cv [arrow_outline] = [arrow_outline]"
    by (rule found_contours_example)
  have h2: "arrow_outline = py_max (contourArea example_cv) arrow_outline []"
    by simp
  have h3: "arrow_polygon
       = approxPolyDP example_cv arrow_outline (4 / 100 * arcLength example_cv arrow_outline True) True"
    by (simp add: approx_example_outline)
  have h4: "4 < length arrow_polygon"
    by (simp add: arrow_polygon_def)
  from more_than_four_arrow_or_circle [OF h1 h2 h3 h4] h1 h2 h3 h4 show ?thesis
    by (simp add: is_arrow_example_outline is_arrow_example_polygon)
qed




text \<open>
  C8. When a contour is found, the primary contour is one of the contours found and none
  has a larger area, and the polygon that is classified is \<open>approxPolyDP\<close> of the primary
  contour with tolerance 0.04 times its closed arc length.
\<close>

theorem largest_contour_simplified:
  assumes "found_contours cv canvas = c0 # rest"
    and "c = py_max (contourArea cv) c0 rest"
  shows "c \<in> set (found_contours cv canvas)
       \<and> (\<forall>c' \<in> set (found_contours cv canvas). contourArea cv c' \<le> contourArea cv c)
       \<and> detect_shape cv canvas
           = classify cv (approxPolyDP cv c (4 / 100 * arcLength cv c True) True) c"
proof -
  have "c \<in> set (found_contours cv canvas)"
    unfolding assms by (rule py_max_mem)
  moreover have "\<forall>c' \<in> set (found_contours cv canvas). contourArea cv c' \<le> contourArea cv c"
    unfolding assms by (blast intro: py_max_greatest)
  moreover have "detect_shape cv canvas
           = classify cv (approxPolyDP cv c (4 / 100 * arcLength cv c True) True) c"
    using assms by (simp add: detect_shape_found)
  ultimately show ?thesis by blast
qed

theorem largest_contour_simplified_witness:
  "found_contours example_cv [[(0, 0), (10, 0), (5, 8)], [(0, 0), (10, 0), (10, 10), (0, 10)]]
     = [(0, 0), (10, 0), (5, 8)] # [[(0, 0), (10, 0), (10, 10), (0, 10)]]
   \<and> [(0, 0), (10, 0), (10, 10), (0, 10)]
       = py_max (contourArea example_cv) [(0, 0), (10, 0), (5, 8)] [[(0, 0), (10, 0), (10, 10), (0, 10)]]
   \<and> contourArea example_cv [(0, 0), (10, 0), (5, 8)] = 40
   \<and> contourArea example_cv [(0, 0), (10, 0), (10, 10), (0, 10)] = 100
   \<and> detect_shape example_cv [[(0, 0), (10, 0), (5, 8)], [(0, 0), (10, 0), (10, 10), (0, 10)]]
       = Inr ''Square''"
proof -
  have a1: "contourArea example_cv [(0, 0), (10, 0), (5, 8)] = 40"
    and a2: "contourArea example_cv [(0, 0), (10, 0), (10, 10), (0, 10)] = 100"
    by (simp_all add: example_cv_def)
  have h1: "found_contours example_cv [[(0, 0), (10, 0), (5, 8)], [(0, 0), (10, 0), (10, 10), (0, 10)]]
     = [(0, 0), (10, 0), (5, 8)] # [[(0, 0), (10, 0), (10, 10), (0, 10)]]"
    by (rule found_contours_example)
  have h2: "[(0, 0), (10, 0), (10, 10), (0, 10)]
       = py_max (contourArea example_cv) [(0, 0), (10, 0), (5, 8)] [[(0, 0), (10, 0), (10, 10), (0, 10)]]"
    by (simp add: a1 a2)
  have sq: "approxPolyDP example_cv [(0, 0), (10, 0), (10, 10), (0, 10)] epsilon True
              = [(0, 0), (10, 0), (10, 10), (0, 10)]" for epsilon
    by (simp add: example_cv_def arrow_outline_def)
  have "classify example_cv [(0, 0), (10, 0), (10, 10), (0, 10)] [(0, 0), (10, 0), (10, 10), (0, 10)]
          = Inr ''Square''"
    by (simp add: classify_def boundingRect_square)
  with largest_contour_simplified [OF h1 h2] h1 h2 a1 a2 show ?thesis
    by (simp add: sq)
qed


end
